theory Spec2Isabelle
  imports Main "HOL-Library.Word"
begin

section \<open>Weighted round robin scheduler: the data of wrr\_scheduler.c\<close>

text \<open>
  \<^verbatim>\<open>size_t\<close> is taken as a 64-bit unsigned integer; \<^verbatim>\<open>uint16_t\<close> and
  \<^verbatim>\<open>uint8_t\<close> are 16-bit and 8-bit words. Word addition wraps and \<open>mod\<close> on words
  is the unsigned remainder, as in C.
\<close>

type_synonym size_t = "64 word"

record ue_t =
  ue_id :: "16 word"
  weight :: "8 word"
  active :: bool

datatype alloc_outcome_t = ALLOC_FAIL | ALLOC_SUCCESS

text \<open>
  The callback type \<^verbatim>\<open>alloc_ue_fn\<close> of wrr\_scheduler.c (line 39): a function of
  \<^verbatim>\<open>const ue_t *ue\<close> and \<^verbatim>\<open>void *ctx\<close> that returns an \<^verbatim>\<open>alloc_outcome_t\<close>. The
  pointer \<^verbatim>\<open>ue\<close> is \<^verbatim>\<open>&ues[idx]\<close>: it tells the callback the position \<open>idx\<close> and
  lets it read (not write: the pointer is to \<^verbatim>\<open>const\<close>) the entry there. The context
  is whatever the callback keeps behind \<^verbatim>\<open>ctx\<close>; the callback may change it.
  (The header wrr\_scheduler.h declares the same type without the \<^verbatim>\<open>const\<close>; the
  function modelled here is the one defined in wrr\_scheduler.c.)
\<close>

type_synonym 'c alloc_ue_fn = "size_t \<Rightarrow> ue_t \<Rightarrow> 'c \<Rightarrow> alloc_outcome_t \<times> 'c"

text \<open>
  The memory a call works on: the array behind \<^verbatim>\<open>ues\<close>, the callback's context, and
  the record of the callback invocations made so far, oldest first, each with the
  position it was made for and the outcome it returned.
\<close>

record 'c world =
  ues :: "ue_t list"
  ctx :: 'c
  calls :: "(size_t \<times> alloc_outcome_t) list"

text \<open>
  Reading \<^verbatim>\<open>ues[i]\<close>. The C code reads whatever \<^verbatim>\<open>n\<close> tells it to; a read beyond
  the array is undefined behaviour, here the value \<open>None\<close>, which every function below
  passes on.
\<close>

definition ue_at :: "'c world \<Rightarrow> size_t \<Rightarrow> ue_t option" where
  "ue_at s i = (if unat i < length (ues s) then Some (ues s ! unat i) else None)"

section \<open>The loops of wrr\_schedule\<close>

text \<open>
  Lines 63 to 67: \<^verbatim>\<open>for (size_t i = 0; i < n; i++) if (ues[i].active && ues[i].weight > 0) active_count++;\<close>
\<close>

function count_active :: "'c world \<Rightarrow> size_t \<Rightarrow> size_t \<Rightarrow> size_t \<Rightarrow> size_t option" where
  "count_active s n i active_count =
     (if i < n then
        (case ue_at s i of
           None \<Rightarrow> None
         | Some u \<Rightarrow>
             count_active s n (i + 1)
               (if active u \<and> weight u > 0 then active_count + 1 else active_count))
      else Some active_count)"
  by pat_completeness auto
termination
proof (relation "measure (\<lambda>(s, n, i, a). unat n - unat i)")
  show "wf (measure (\<lambda>(s :: 'c world, n :: size_t, i :: size_t, a :: size_t). unat n - unat i))"
    by simp
next
  fix s :: "'c world" and n i active_count :: size_t and x2 :: ue_t
  assume lt: "i < n"
  have "unat n < 2 ^ 64"
    using unsigned_less [of n] by simp
  with lt have "unat i + 1 < 2 ^ 64"
    unfolding word_less_nat_alt by linarith
  then have "unat (i + 1) = Suc (unat i)"
    by (simp add: unat_word_ariths)
  with lt show "((s, n, i + 1, if active x2 \<and> 0 < weight x2 then active_count + 1 else active_count),
          (s, n, i, active_count)) \<in> measure (\<lambda>(s, n, i, a). unat n - unat i)"
    by (simp add: word_less_nat_alt)
qed

text \<open>
  Lines 82 to 90, the attempts for one participant:
  \<^verbatim>\<open>for (uint8_t k = 0; k < w; k++) { res = alloc_fn(ue, ctx); if (res == ALLOC_SUCCESS) any_success = true; }\<close>
\<close>

function attempts ::
  "'c alloc_ue_fn \<Rightarrow> size_t \<Rightarrow> ue_t \<Rightarrow> 8 word \<Rightarrow> 8 word \<Rightarrow> bool \<Rightarrow> 'c world \<Rightarrow> bool \<times> 'c world" where
  "attempts alloc_fn idx u w k any_success s =
     (if k < w then
        (case alloc_fn idx u (ctx s) of
           (res, c') \<Rightarrow>
             attempts alloc_fn idx u w (k + 1)
               (if res = ALLOC_SUCCESS then True else any_success)
               (s\<lparr>ctx := c', calls := calls s @ [(idx, res)]\<rparr>))
      else (any_success, s))"
  by pat_completeness auto
termination
proof (relation "measure (\<lambda>(f, idx, u, w, k, a, s). unat w - unat k)")
  show "wf (measure (\<lambda>(f :: 'c alloc_ue_fn, idx :: size_t, u :: ue_t, w :: 8 word, k :: 8 word,
          a :: bool, s :: 'c world). unat w - unat k))"
    by simp
next
  fix alloc_fn :: "'c alloc_ue_fn" and idx :: size_t and u :: ue_t and w k :: "8 word"
    and any_success :: bool and s :: "'c world" and x :: "alloc_outcome_t \<times> 'c"
    and res :: alloc_outcome_t and c' :: 'c
  assume lt: "k < w"
  have "unat w < 2 ^ 8"
    using unsigned_less [of w] by simp
  with lt have "unat k + 1 < 2 ^ 8"
    unfolding word_less_nat_alt by linarith
  then have "unat (k + 1) = Suc (unat k)"
    by (simp add: unat_word_ariths)
  with lt show "((alloc_fn, idx, u, w, k + 1, if res = ALLOC_SUCCESS then True else any_success,
           s\<lparr>ctx := c', calls := calls s @ [(idx, res)]\<rparr>),
          (alloc_fn, idx, u, w, k, any_success, s))
         \<in> measure (\<lambda>(f, idx, u, w, k, a, s). unat w - unat k)"
    by (simp add: word_less_nat_alt)
qed

text \<open>
  Lines 76 to 100, the pass: \<^verbatim>\<open>visited\<close> counts the steps, \<^verbatim>\<open>idx\<close> is the position
  visited, \<^verbatim>\<open>next_idx\<close> the pending cursor. Line 102 returns \<^verbatim>\<open>next_idx % n\<close>.
\<close>

function one_pass ::
  "'c alloc_ue_fn \<Rightarrow> size_t \<Rightarrow> size_t \<Rightarrow> size_t \<Rightarrow> size_t \<Rightarrow> bool \<Rightarrow> 'c world
     \<Rightarrow> (size_t \<times> 'c world) option" where
  "one_pass alloc_fn n visited idx next_idx any_success s =
     (if visited < n then
        (case ue_at s idx of
           None \<Rightarrow> None
         | Some u \<Rightarrow>
             if active u \<and> weight u > 0 then
               (case attempts alloc_fn idx u (weight u) 0 any_success s of
                  (any_success', s') \<Rightarrow>
                    one_pass alloc_fn n (visited + 1) ((idx + 1) mod n)
                      (if any_success' then (idx + 1) mod n else next_idx) any_success' s')
             else one_pass alloc_fn n (visited + 1) ((idx + 1) mod n) next_idx any_success s)
      else Some (next_idx mod n, s))"
  by pat_completeness auto
termination
proof -
  have step: "unat n - unat (visited + 1) < unat n - unat visited"
    if lt: "visited < n" for n visited :: size_t
  proof -
    have "unat n < 2 ^ 64"
      using unsigned_less [of n] by simp
    with lt have "unat visited + 1 < 2 ^ 64"
      unfolding word_less_nat_alt by linarith
    then have "unat (visited + 1) = Suc (unat visited)"
      by (simp add: unat_word_ariths)
    with lt show ?thesis
      by (simp add: word_less_nat_alt)
  qed
  show ?thesis
    by (relation "measure (\<lambda>(f, n, visited, idx, nx, a, s). unat n - unat visited)")
       (simp_all add: step)
qed

section \<open>wrr\_schedule\<close>

text \<open>
  The function of lines 51 to 103. A null \<^verbatim>\<open>alloc_fn\<close> is \<open>None\<close>. The result is the
  returned index together with the memory the call leaves; \<open>None\<close> only if the call
  read beyond the array.
\<close>

definition wrr_schedule ::
  "ue_t list \<Rightarrow> size_t \<Rightarrow> size_t \<Rightarrow> 'c alloc_ue_fn option \<Rightarrow> 'c \<Rightarrow> (size_t \<times> 'c world) option" where
  "wrr_schedule us n next_idx alloc_fn c =
     (let s = \<lparr>ues = us, ctx = c, calls = []\<rparr> in
      if n = 0 then Some (0, s)
      else
        (case alloc_fn of
           None \<Rightarrow> Some (0, s)
         | Some f \<Rightarrow>
             (case count_active s n 0 0 of
                None \<Rightarrow> None
              | Some active_count \<Rightarrow>
                  if active_count = 0 then Some (next_idx mod n, s)
                  else one_pass f n 0 (next_idx mod n) next_idx False s)))"

section \<open>Concrete participants and a concrete callback\<close>

text \<open>
  The array of \<^verbatim>\<open>main\<close> (lines 135 to 139) and \<^verbatim>\<open>demo_alloc_fn\<close> (lines 117 to 131)
  without its \<^verbatim>\<open>printf\<close>: the context is the remaining budget \<^verbatim>\<open>rb_budget\<close>, which
  only ever counts down from a positive value, so an unbounded integer stands for the
  C \<^verbatim>\<open>int\<close>.
\<close>

definition demo_ues :: "ue_t list" where
  "demo_ues =
     [\<lparr>ue_id = 1001, weight = 1, active = True\<rparr>,
      \<lparr>ue_id = 1002, weight = 2, active = True\<rparr>,
      \<lparr>ue_id = 1003, weight = 4, active = True\<rparr>]"

definition demo_alloc_fn :: "int alloc_ue_fn" where
  "demo_alloc_fn idx u rb_budget =
     (if rb_budget \<le> 0 then (ALLOC_FAIL, rb_budget) else (ALLOC_SUCCESS, rb_budget - 1))"

text \<open>
  The callback of the specification's second scenario, which returns \<^verbatim>\<open>FAIL\<close> for every
  attempt; its context counts how often it has been invoked.
\<close>

definition refuse_fn :: "nat alloc_ue_fn" where
  "refuse_fn idx u invoked = (ALLOC_FAIL, Suc invoked)"

text \<open>
  A list with nobody to serve: one participant switched off, one with weight zero.
\<close>

definition idle_ues :: "ue_t list" where
  "idle_ues =
     [\<lparr>ue_id = 1001, weight = 1, active = False\<rparr>,
      \<lparr>ue_id = 1002, weight = 0, active = True\<rparr>]"

text \<open>
  The participants of the specification's concrete scenarios: the weights of the
  demonstration, under the identifiers 1, 2 and 3.
\<close>

definition spec_ues :: "ue_t list" where
  "spec_ues =
     [\<lparr>ue_id = 1, weight = 1, active = True\<rparr>,
      \<lparr>ue_id = 2, weight = 2, active = True\<rparr>,
      \<lparr>ue_id = 3, weight = 4, active = True\<rparr>]"

text \<open>A list where eligible and ineligible participants alternate.\<close>

definition mixed_ues :: "ue_t list" where
  "mixed_ues =
     [\<lparr>ue_id = 1001, weight = 3, active = True\<rparr>,
      \<lparr>ue_id = 1002, weight = 5, active = False\<rparr>,
      \<lparr>ue_id = 1003, weight = 0, active = True\<rparr>,
      \<lparr>ue_id = 1004, weight = 2, active = True\<rparr>]"

section \<open>The vocabulary of the specification\<close>

text \<open>A participant is eligible when it is active and its weight is positive.\<close>

definition eligible :: "ue_t \<Rightarrow> bool" where
  "eligible u = (active u \<and> 0 < weight u)"

text \<open>
  The traversal order of the specification: \<open>count\<close> positions, starting at
  \<open>start_index mod count\<close> and going up by one, wrapping modulo \<open>count\<close>.
\<close>

definition traversal :: "size_t \<Rightarrow> size_t \<Rightarrow> size_t list" where
  "traversal n start =
     map (\<lambda>j. word_of_nat ((unat start mod unat n + j) mod unat n)) [0..<unat n]"

text \<open>The eligible positions among \<open>ps\<close>, in the order of \<open>ps\<close>.\<close>

definition served :: "ue_t list \<Rightarrow> size_t list \<Rightarrow> size_t list" where
  "served us ps = filter (\<lambda>p. eligible (us ! unat p)) ps"

text \<open>
  The attempts the specification expects while going through the positions \<open>ps\<close>: for
  each eligible position, in order, as many attempts as its weight.
\<close>

definition expected_attempts :: "ue_t list \<Rightarrow> size_t list \<Rightarrow> size_t list" where
  "expected_attempts us ps =
     concat (map (\<lambda>p. replicate (unat (weight (us ! unat p))) p) (served us ps))"

text \<open>
  Step 5 of the specification for one eligible participant: \<open>k\<close> invocations of the
  callback in sequence, each outcome noted, none skipped after a success.
\<close>

primrec weight_attempts ::
  "'c alloc_ue_fn \<Rightarrow> size_t \<Rightarrow> ue_t \<Rightarrow> nat \<Rightarrow> bool \<Rightarrow> 'c world \<Rightarrow> bool \<times> 'c world" where
  "weight_attempts f p u 0 any_success s = (any_success, s)"
| "weight_attempts f p u (Suc k) any_success s =
     (case f p u (ctx s) of
        (res, c') \<Rightarrow>
          weight_attempts f p u k (any_success \<or> res = ALLOC_SUCCESS)
            (s\<lparr>ctx := c', calls := calls s @ [(p, res)]\<rparr>))"

text \<open>
  Steps 5 and 6 of the specification for the participant at position \<open>p\<close>, on the
  pending cursor, the any-success flag and the memory: an ineligible participant changes
  nothing; an eligible one gets its attempts, and then the pending cursor moves just past
  it if any attempt of the call so far has succeeded.
\<close>

definition visit ::
  "'c alloc_ue_fn \<Rightarrow> size_t \<Rightarrow> size_t \<times> bool \<times> 'c world \<Rightarrow> size_t \<Rightarrow> size_t \<times> bool \<times> 'c world" where
  "visit f n st p =
     (case st of
        (pending, any_success, s) \<Rightarrow>
          let u = ues s ! unat p in
          if eligible u then
            (case weight_attempts f p u (unat (weight u)) any_success s of
               (any_success', s') \<Rightarrow>
                 (if any_success' then (p + 1) mod n else pending, any_success', s'))
          else (pending, any_success, s))"

text \<open>
  Steps 3, 4 and 7 of the specification: one pass over the traversal order, then the
  pending cursor modulo \<open>count\<close>.
\<close>

definition spec_pass :: "'c alloc_ue_fn \<Rightarrow> size_t \<Rightarrow> size_t \<Rightarrow> 'c world \<Rightarrow> size_t \<times> 'c world" where
  "spec_pass f n start s =
     (case foldl (visit f n) (start, False, s) (traversal n start) of
        (pending, any_success, s') \<Rightarrow> (pending mod n, s'))"

text \<open>
  The positions the variable \<^verbatim>\<open>idx\<close> of the source takes in \<open>k\<close> steps of
  \<^verbatim>\<open>idx = (idx + 1) % n\<close>.
\<close>

fun walk :: "size_t \<Rightarrow> size_t \<Rightarrow> nat \<Rightarrow> size_t list" where
  "walk n idx 0 = []"
| "walk n idx (Suc k) = idx # walk n ((idx + 1) mod n) k"

text \<open>
  Invoking the callback for the positions \<open>ps\<close>, one after the other, on the participants
  \<open>us\<close>: each invocation gets the context the one before left, and its position and
  outcome are noted.
\<close>

definition invoke ::
  "'c alloc_ue_fn \<Rightarrow> ue_t list \<Rightarrow> (size_t \<times> alloc_outcome_t) list \<times> 'c \<Rightarrow> size_t
     \<Rightarrow> (size_t \<times> alloc_outcome_t) list \<times> 'c" where
  "invoke f us st p =
     (case st of (log, c) \<Rightarrow> (case f p (us ! unat p) c of (res, c') \<Rightarrow> (log @ [(p, res)], c')))"

definition run_calls ::
  "'c alloc_ue_fn \<Rightarrow> ue_t list \<Rightarrow> size_t list \<Rightarrow> 'c \<Rightarrow> (size_t \<times> alloc_outcome_t) list \<times> 'c" where
  "run_calls f us ps c = foldl (invoke f us) ([], c) ps"

text \<open>A callback that does not look at the identifier of the participant it is given.\<close>

definition id_blind :: "'c alloc_ue_fn \<Rightarrow> bool" where
  "id_blind f = (\<forall>i u c x. f i (u\<lparr>ue_id := x\<rparr>) c = f i u c)"

section \<open>The loops, one at a time\<close>

declare attempts.simps [simp del] count_active.simps [simp del] one_pass.simps [simp del]

lemma word_succ_unat: "(i::'a::len word) < n \<Longrightarrow> unat (i + 1) = Suc (unat i)"
proof -
  assume lt: "i < n"
  have "unat n < 2 ^ LENGTH('a)" by (rule unsigned_less)
  with lt have "unat i + 1 < 2 ^ LENGTH('a)"
    unfolding word_less_nat_alt by linarith
  then show ?thesis by (simp add: unat_word_ariths)
qed

lemma attempts_ues: "ues (snd (attempts f idx u w k a s)) = ues s"
proof (induction f idx u w k a s rule: attempts.induct)
  case (1 f idx u w k a s)
  show ?case
  proof (cases "k < w")
    case True
    obtain res c' where call: "f idx u (ctx s) = (res, c')"
      by (cases "f idx u (ctx s)")
    from "1.IH" [OF True call [symmetric]] True call show ?thesis
      by (subst attempts.simps) simp
  next
    case False
    then show ?thesis
      by (subst attempts.simps) simp
  qed
qed

lemma attempts_calls:
  "\<exists>new. calls (snd (attempts f idx u w k a s)) = calls s @ new
      \<and> map fst new = replicate (unat w - unat k) idx
      \<and> fst (attempts f idx u w k a s) = (a \<or> ALLOC_SUCCESS \<in> snd ` set new)"
proof (induction f idx u w k a s rule: attempts.induct)
  case (1 f idx u w k a s)
  show ?case
  proof (cases "k < w")
    case True
    obtain res c' where call: "f idx u (ctx s) = (res, c')"
      by (cases "f idx u (ctx s)")
    let ?s1 = "s\<lparr>ctx := c', calls := calls s @ [(idx, res)]\<rparr>"
    let ?a1 = "if res = ALLOC_SUCCESS then True else a"
    have unf: "attempts f idx u w k a s = attempts f idx u w (k + 1) ?a1 ?s1"
      using True call by (subst attempts.simps) simp
    from "1.IH" [OF True call [symmetric]]
    obtain new1 where n1: "calls (snd (attempts f idx u w (k + 1) ?a1 ?s1)) = calls ?s1 @ new1"
      and n2: "map fst new1 = replicate (unat w - unat (k + 1)) idx"
      and n3: "fst (attempts f idx u w (k + 1) ?a1 ?s1) = (?a1 \<or> ALLOC_SUCCESS \<in> snd ` set new1)"
      by blast
    have cnt: "unat w - unat k = Suc (unat w - unat (k + 1))"
      using True word_succ_unat [OF True] by (simp add: word_less_nat_alt)
    have "calls (snd (attempts f idx u w k a s)) = calls s @ ((idx, res) # new1)"
      using n1 unf by simp
    moreover have "map fst ((idx, res) # new1) = replicate (unat w - unat k) idx"
      using n2 cnt by simp
    moreover have "fst (attempts f idx u w k a s)
        = (a \<or> ALLOC_SUCCESS \<in> snd ` set ((idx, res) # new1))"
      using n3 unf by auto
    ultimately show ?thesis by blast
  next
    case False
    then have "attempts f idx u w k a s = (a, s)"
      by (subst attempts.simps) simp
    moreover from False have "unat w - unat k = 0"
      by (simp add: word_less_nat_alt)
    ultimately show ?thesis by simp
  qed
qed

lemma count_active_sound:
  "unat n \<le> length (ues s) \<Longrightarrow> i \<le> n \<Longrightarrow>
     count_active s n i a
       = Some (a + word_of_nat (length (filter eligible (drop (unat i) (take (unat n) (ues s))))))"
proof (induction s n i a rule: count_active.induct)
  case (1 s n i a)
  show ?case
  proof (cases "i < n")
    case True
    let ?us = "take (unat n) (ues s)"
    let ?u = "ues s ! unat i"
    let ?a1 = "if active ?u \<and> weight ?u > 0 then a + 1 else a"
    have in_range: "unat i < length (ues s)" "unat i < length ?us"
      using True "1.prems"(1) by (simp_all add: word_less_nat_alt)
    then have rd: "ue_at s i = Some ?u"
      by (simp add: ue_at_def)
    have unf: "count_active s n i a = count_active s n (i + 1) ?a1"
      using True rd by (subst count_active.simps) simp
    have suc: "unat (i + 1) = Suc (unat i)"
      by (rule word_succ_unat [OF True])
    have "i + 1 \<le> n"
      using True by (rule inc_le)
    from "1.IH" [OF True rd "1.prems"(1) this]
    have ih: "count_active s n (i + 1) ?a1
        = Some (?a1 + word_of_nat (length (filter eligible (drop (Suc (unat i)) ?us))))"
      by (simp add: suc)
    have "drop (unat i) ?us = ?u # drop (Suc (unat i)) ?us"
      using in_range True by (simp add: Cons_nth_drop_Suc [symmetric] word_less_nat_alt)
    moreover have "eligible ?u = (active ?u \<and> weight ?u > 0)"
      by (simp add: eligible_def)
    ultimately show ?thesis
      using unf ih by simp
  next
    case False
    with "1.prems"(2) have "i = n" by simp
    then show ?thesis
      by (subst count_active.simps) simp
  qed
qed

lemma count_active_zero:
  assumes "length us = unat n"
  shows "count_active \<lparr>ues = us, ctx = c, calls = []\<rparr> n 0 0
     = Some (word_of_nat (length (filter eligible us)))"
    and "(word_of_nat (length (filter eligible us)) = (0 :: size_t)) = (\<forall>u\<in>set us. \<not> eligible u)"
proof -
  show "count_active \<lparr>ues = us, ctx = c, calls = []\<rparr> n 0 0
     = Some (word_of_nat (length (filter eligible us)))"
    using count_active_sound [of n "\<lparr>ues = us, ctx = c, calls = []\<rparr>" 0 0] assms by simp
  have "length (filter eligible us) \<le> unat n"
    using length_filter_le [of eligible us] assms by simp
  also have "unat n < 2 ^ 64"
    using unsigned_less [of n] by simp
  finally have "unat (word_of_nat (length (filter eligible us)) :: size_t) = length (filter eligible us)"
    by (simp add: unat_of_nat)
  then have "(word_of_nat (length (filter eligible us)) = (0 :: size_t)) = (length (filter eligible us) = 0)"
    by (metis unat_0_iff)
  then show "(word_of_nat (length (filter eligible us)) = (0 :: size_t)) = (\<forall>u\<in>set us. \<not> eligible u)"
    by (simp add: filter_empty_conv)
qed

lemma attempts_spec:
  "attempts f idx u w k a s = weight_attempts f idx u (unat w - unat k) a s"
proof (induction f idx u w k a s rule: attempts.induct)
  case (1 f idx u w k a s)
  show ?case
  proof (cases "k < w")
    case True
    obtain res c' where call: "f idx u (ctx s) = (res, c')"
      by (cases "f idx u (ctx s)")
    have cnt: "unat w - unat k = Suc (unat w - unat (k + 1))"
      using True word_succ_unat [OF True] by (simp add: word_less_nat_alt)
    have "(if res = ALLOC_SUCCESS then True else a) = (a \<or> res = ALLOC_SUCCESS)"
      by simp
    with "1.IH" [OF True call [symmetric]] True call cnt show ?thesis
      by (subst attempts.simps) simp
  next
    case False
    then have "unat w - unat k = 0"
      by (simp add: word_less_nat_alt)
    with False show ?thesis
      by (subst attempts.simps) simp
  qed
qed

lemma one_pass_fold:
  "idx < n \<Longrightarrow> unat n \<le> length (ues s) \<Longrightarrow>
     one_pass f n visited idx nx a s
       = (case foldl (visit f n) (nx, a, s) (walk n idx (unat n - unat visited)) of
            (pending, any_success, s') \<Rightarrow> Some (pending mod n, s'))"
proof (induction f n visited idx nx a s rule: one_pass.induct)
  case (1 f n visited idx nx a s)
  show ?case
  proof (cases "visited < n")
    case True
    let ?u = "ues s ! unat idx"
    let ?idx' = "(idx + 1) mod n"
    have rd: "ue_at s idx = Some ?u"
      using "1.prems" by (simp add: ue_at_def word_less_nat_alt)
    have "0 < n"
      using "1.prems"(1) unfolding word_less_nat_alt by simp
    then have idx': "?idx' < n"
      by (rule word_mod_less_divisor)
    have cnt: "unat n - unat visited = Suc (unat n - unat (visited + 1))"
      using True word_succ_unat [OF True] by (simp add: word_less_nat_alt)
    show ?thesis
    proof (cases "active ?u \<and> weight ?u > 0")
      case elig: True
      obtain a' s1 where att: "attempts f idx ?u (weight ?u) 0 a s = (a', s1)"
        by (cases "attempts f idx ?u (weight ?u) 0 a s")
      have "ues s1 = ues s"
        using attempts_ues [of f idx ?u "weight ?u" 0 a s] att by simp
      with "1.prems"(2) have len1: "unat n \<le> length (ues s1)"
        by simp
      let ?nx' = "if a' then ?idx' else nx"
      have unf: "one_pass f n visited idx nx a s = one_pass f n (visited + 1) ?idx' ?nx' a' s1"
        using True rd elig att by (subst one_pass.simps) simp
      have "weight_attempts f idx ?u (unat (weight ?u)) a s = (a', s1)"
        using att by (simp add: attempts_spec)
      then have vis: "visit f n (nx, a, s) idx = (?nx', a', s1)"
        using elig by (simp add: visit_def eligible_def)
      from "1.IH"(1) [OF True rd elig att [symmetric] idx' len1] unf vis cnt
      show ?thesis by simp
    next
      case inel: False
      have unf: "one_pass f n visited idx nx a s = one_pass f n (visited + 1) ?idx' nx a s"
        using True rd inel by (subst one_pass.simps) auto
      have vis: "visit f n (nx, a, s) idx = (nx, a, s)"
        using inel by (auto simp add: visit_def eligible_def)
      from "1.IH"(2) [OF True rd inel idx' "1.prems"(2)] unf vis cnt
      show ?thesis by simp
    qed
  next
    case False
    then have "unat n - unat visited = 0"
      by (simp add: word_less_nat_alt)
    with False show ?thesis
      by (subst one_pass.simps) simp
  qed
qed

lemma visit_sound:
  "\<exists>nx' a' s' new. visit f n (nx, a, s) p = (nx', a', s')
      \<and> ues s' = ues s \<and> calls s' = calls s @ new
      \<and> map fst new = expected_attempts (ues s) [p]
      \<and> a' = (a \<or> ALLOC_SUCCESS \<in> snd ` set new)
      \<and> nx' = (if eligible (ues s ! unat p) \<and> a' then (p + 1) mod n else nx)"
proof (cases "eligible (ues s ! unat p)")
  case True
  let ?u = "ues s ! unat p"
  obtain a' s1 where att: "attempts f p ?u (weight ?u) 0 a s = (a', s1)"
    by (cases "attempts f p ?u (weight ?u) 0 a s")
  have "weight_attempts f p ?u (unat (weight ?u)) a s = (a', s1)"
    using att by (simp add: attempts_spec)
  then have vis: "visit f n (nx, a, s) p = (if a' then (p + 1) mod n else nx, a', s1)"
    using True by (simp add: visit_def)
  have u1: "ues s1 = ues s"
    using attempts_ues [of f p ?u "weight ?u" 0 a s] att by simp
  obtain new where c1: "calls s1 = calls s @ new"
    and c2: "map fst new = replicate (unat (weight ?u)) p"
    and c3: "a' = (a \<or> ALLOC_SUCCESS \<in> snd ` set new)"
    using attempts_calls [of f p ?u "weight ?u" 0 a s] att by auto
  have "map fst new = expected_attempts (ues s) [p]"
    using True c2 by (simp add: expected_attempts_def served_def)
  with vis u1 c1 c3 True show ?thesis
    by auto
next
  case False
  then have "visit f n (nx, a, s) p = (nx, a, s)"
    by (simp add: visit_def)
  moreover have "expected_attempts (ues s) [p] = []"
    using False by (simp add: expected_attempts_def served_def)
  ultimately show ?thesis
    using False by simp
qed

lemma served_Cons:
  "served us (p # ps) = (if eligible (us ! unat p) then p # served us ps else served us ps)"
  by (simp add: served_def)

lemma expected_attempts_Cons:
  "expected_attempts us (p # ps) = expected_attempts us [p] @ expected_attempts us ps"
  by (simp add: expected_attempts_def served_def)

lemma expected_attempts_none: "served us ps = [] \<Longrightarrow> expected_attempts us ps = []"
  by (simp add: expected_attempts_def)

lemma foldl_visit_sound:
  "\<exists>nx' a' s' new. foldl (visit f n) (nx, a, s) ps = (nx', a', s')
      \<and> ues s' = ues s \<and> calls s' = calls s @ new
      \<and> map fst new = expected_attempts (ues s) ps
      \<and> a' = (a \<or> ALLOC_SUCCESS \<in> snd ` set new)
      \<and> nx' = (if a' \<and> served (ues s) ps \<noteq> [] then (last (served (ues s) ps) + 1) mod n else nx)"
proof (induction ps arbitrary: nx a s)
  case Nil
  show ?case
    by (simp add: expected_attempts_def served_def)
next
  case (Cons p ps)
  obtain nx1 a1 s1 new0 where v: "visit f n (nx, a, s) p = (nx1, a1, s1)"
    and u1: "ues s1 = ues s" and c1: "calls s1 = calls s @ new0"
    and e1: "map fst new0 = expected_attempts (ues s) [p]"
    and a1: "a1 = (a \<or> ALLOC_SUCCESS \<in> snd ` set new0)"
    and n1: "nx1 = (if eligible (ues s ! unat p) \<and> a1 then (p + 1) mod n else nx)"
    using visit_sound [of f n nx a s p] by blast
  obtain nx' a' s' new1 where r: "foldl (visit f n) (nx1, a1, s1) ps = (nx', a', s')"
    and u2: "ues s' = ues s1" and c2: "calls s' = calls s1 @ new1"
    and e2: "map fst new1 = expected_attempts (ues s1) ps"
    and a2: "a' = (a1 \<or> ALLOC_SUCCESS \<in> snd ` set new1)"
    and n2: "nx' = (if a' \<and> served (ues s1) ps \<noteq> []
                    then (last (served (ues s1) ps) + 1) mod n else nx1)"
    using Cons.IH [of nx1 a1 s1] by blast
  have "foldl (visit f n) (nx, a, s) (p # ps) = (nx', a', s')"
    using v r by simp
  moreover have "ues s' = ues s"
    using u1 u2 by simp
  moreover have "calls s' = calls s @ (new0 @ new1)"
    using c1 c2 by simp
  moreover have "map fst (new0 @ new1) = expected_attempts (ues s) (p # ps)"
    using e1 e2 u1 by (simp add: expected_attempts_Cons [of _ p ps])
  moreover have "a' = (a \<or> ALLOC_SUCCESS \<in> snd ` set (new0 @ new1))"
    using a1 a2 by auto
  moreover have "nx' = (if a' \<and> served (ues s) (p # ps) \<noteq> []
      then (last (served (ues s) (p # ps)) + 1) mod n else nx)"
  proof (cases "served (ues s) ps = []")
    case True
    then have "new1 = []"
      using e2 u1 expected_attempts_none [of "ues s" ps] by simp
    then have "a' = a1"
      using a2 by simp
    then show ?thesis
      using n1 n2 u1 True by (simp add: served_Cons)
  next
    case False
    then show ?thesis
      using n1 n2 u1 a1 a2 by (auto simp add: served_Cons)
  qed
  ultimately show ?case
    by blast
qed

lemma foldl_visit_idle:
  "served (ues s) ps = [] \<Longrightarrow> foldl (visit f n) (nx, a, s) ps = (nx, a, s)"
proof (induction ps)
  case Nil
  show ?case by simp
next
  case (Cons p ps)
  from Cons.prems have "\<not> eligible (ues s ! unat p)" and "served (ues s) ps = []"
    by (simp_all add: served_Cons split: if_splits)
  with Cons.IH show ?case
    by (simp add: visit_def)
qed

section \<open>The traversal order\<close>

lemma walk_positions:
  "idx < n \<Longrightarrow> walk n idx k = map (\<lambda>j. word_of_nat ((unat idx + j) mod unat n)) [0..<k]"
proof (induction k arbitrary: idx)
  case 0
  show ?case by simp
next
  case (Suc k)
  let ?idx' = "(idx + 1) mod n"
  have pos: "0 < n"
    using Suc.prems unfolding word_less_nat_alt by simp
  then have "?idx' < n"
    by (rule word_mod_less_divisor)
  from Suc.IH [OF this]
  have ih: "walk n ?idx' k = map (\<lambda>j. word_of_nat ((unat ?idx' + j) mod unat n)) [0..<k]" .
  have "unat ?idx' = Suc (unat idx) mod unat n"
    by (simp add: unat_mod word_succ_unat [OF Suc.prems])
  then have step: "(unat ?idx' + j) mod unat n = (unat idx + Suc j) mod unat n" for j
    by (simp add: mod_add_left_eq)
  have "unat idx mod unat n = unat idx"
    using Suc.prems by (simp add: word_less_nat_alt)
  then have first: "word_of_nat ((unat idx + 0) mod unat n) = idx"
    by simp
  have "map (\<lambda>j. word_of_nat ((unat idx + j) mod unat n)) [0..<Suc k]
      = word_of_nat ((unat idx + 0) mod unat n)
          # map (\<lambda>j. word_of_nat ((unat idx + Suc j) mod unat n) :: size_t) [0..<k]"
    by (simp only: map_upt_Suc)
  with ih step first show ?case
    by simp
qed

lemma traversal_walk: "n \<noteq> 0 \<Longrightarrow> traversal n start = walk n (start mod n) (unat n)"
proof -
  assume "n \<noteq> 0"
  then have "0 < n"
    by (simp add: word_greater_zero_iff)
  then have "start mod n < n"
    by (rule word_mod_less_divisor)
  from walk_positions [OF this, of "unat n"] show ?thesis
    by (simp add: traversal_def unat_mod)
qed

lemma traversal_rotate:
  "traversal n start = rotate (unat start) (map word_of_nat [0..<unat n])"
proof (rule nth_equalityI)
  show "length (traversal n start) = length (rotate (unat start) (map word_of_nat [0..<unat n] :: size_t list))"
    by (simp add: traversal_def)
next
  fix j
  assume "j < length (traversal n start)"
  then have j: "j < unat n"
    by (simp add: traversal_def)
  then have "(unat start + j) mod unat n < unat n"
    by simp
  with j show "traversal n start ! j = rotate (unat start) (map word_of_nat [0..<unat n]) ! j"
    by (simp add: traversal_def nth_rotate mod_add_left_eq)
qed

lemma positions_distinct: "distinct (map word_of_nat [0..<unat (n :: size_t)] :: size_t list)"
proof -
  have inj: "inj_on (word_of_nat :: nat \<Rightarrow> size_t) (set [0..<unat n])"
  proof (rule inj_onI)
    fix x y
    assume x: "x \<in> set [0..<unat n]" and y: "y \<in> set [0..<unat n]"
      and eq: "(word_of_nat x :: size_t) = word_of_nat y"
    have "unat n < 2 ^ 64"
      using unsigned_less [of n] by simp
    with x y have "unat (word_of_nat x :: size_t) = x" "unat (word_of_nat y :: size_t) = y"
      by (simp_all add: unat_of_nat)
    then show "x = y"
      using eq by metis
  qed
  have "distinct [0..<unat n]"
    by simp
  with inj show ?thesis
    unfolding distinct_map by (rule conjI [rotated])
qed

lemma positions_set: "set (map word_of_nat [0..<unat n] :: size_t list) = {p. p < n}"
proof (rule set_eqI)
  fix p :: size_t
  show "p \<in> set (map word_of_nat [0..<unat n]) \<longleftrightarrow> p \<in> {p. p < n}"
  proof
    assume "p \<in> set (map word_of_nat [0..<unat n])"
    then obtain j where j: "j < unat n" and p: "p = word_of_nat j"
      by auto
    have "unat n < 2 ^ 64"
      using unsigned_less [of n] by simp
    with j have "unat (word_of_nat j :: size_t) = j"
      by (simp add: unat_of_nat)
    with j p show "p \<in> {p. p < n}"
      by (simp add: word_less_nat_alt)
  next
    assume "p \<in> {p. p < n}"
    then have "unat p < unat n"
      by (simp add: word_less_nat_alt)
    moreover have "p = word_of_nat (unat p)"
      by simp
    ultimately show "p \<in> set (map word_of_nat [0..<unat n])"
      by (metis (no_types) atLeastLessThan_iff image_eqI le0 set_map set_upt)
  qed
qed

lemma traversal_once:
  "length (traversal n start) = unat n"
  "distinct (traversal n start)"
  "set (traversal n start) = {p. p < n}"
proof -
  show "length (traversal n start) = unat n"
    by (simp add: traversal_def)
  show "distinct (traversal n start)"
    unfolding traversal_rotate distinct_rotate by (rule positions_distinct)
  show "set (traversal n start) = {p. p < n}"
    unfolding traversal_rotate set_rotate by (rule positions_set)
qed

lemma traversal_participants:
  assumes "length us = unat n"
  shows "map (\<lambda>p. us ! unat p) (traversal n start) = rotate (unat start) us"
proof -
  have "unat n < 2 ^ 64"
    using unsigned_less [of n] by simp
  then have "map (\<lambda>j. us ! unat (word_of_nat j :: size_t)) [0..<unat n] = map (\<lambda>j. us ! j) [0..<unat n]"
    by (simp add: unat_of_nat)
  also have "\<dots> = us"
    using assms map_nth [of us] by simp
  finally show ?thesis
    by (simp add: traversal_rotate rotate_map [symmetric] comp_def)
qed

lemma word_mod_mod: "(x :: 'a::len word) mod n mod n = x mod n"
  by (simp add: word_unat_eq_iff unat_mod)

section \<open>The whole call\<close>

lemma served_none_iff:
  assumes "length us = unat n"
  shows "(served us (traversal n start) = []) = (\<forall>u\<in>set us. \<not> eligible u)"
proof -
  have "map (\<lambda>p. us ! unat p) (served us (traversal n start))
      = filter eligible (map (\<lambda>p. us ! unat p) (traversal n start))"
    by (simp add: served_def filter_map comp_def)
  also have "\<dots> = filter eligible (rotate (unat start) us)"
    by (simp only: traversal_participants [OF assms])
  finally have "(served us (traversal n start) = []) = (filter eligible (rotate (unat start) us) = [])"
    by (metis map_is_Nil_conv)
  then show ?thesis
    by (simp add: filter_empty_conv)
qed

lemma wrr_schedule_refines:
  assumes n: "n \<noteq> 0" and len: "length us = unat n"
  shows "wrr_schedule us n start (Some f) c
     = Some (spec_pass f n start \<lparr>ues = us, ctx = c, calls = []\<rparr>)"
proof -
  let ?s = "\<lparr>ues = us, ctx = c, calls = []\<rparr>"
  note cnt = count_active_zero(1) [OF len, of c] count_active_zero(2) [OF len]
  show ?thesis
  proof (cases "\<forall>u\<in>set us. \<not> eligible u")
    case True
    then have "served (ues ?s) (traversal n start) = []"
      using served_none_iff [OF len, of start] by simp
    then have "foldl (visit f n) (start, False, ?s) (traversal n start) = (start, False, ?s)"
      by (rule foldl_visit_idle)
    then have "spec_pass f n start ?s = (start mod n, ?s)"
      by (simp add: spec_pass_def)
    moreover have "wrr_schedule us n start (Some f) c = Some (start mod n, ?s)"
      using n True cnt by (simp add: wrr_schedule_def)
    ultimately show ?thesis
      by simp
  next
    case False
    then have "wrr_schedule us n start (Some f) c = one_pass f n 0 (start mod n) start False ?s"
      using n cnt by (auto simp add: wrr_schedule_def Let_def)
    moreover have "0 < n"
      using n by (simp add: word_greater_zero_iff)
    then have "start mod n < n"
      by (rule word_mod_less_divisor)
    then have "one_pass f n 0 (start mod n) start False ?s
        = (case foldl (visit f n) (start, False, ?s) (walk n (start mod n) (unat n - unat (0 :: size_t))) of
             (pending, any_success, s') \<Rightarrow> Some (pending mod n, s'))"
      using len by (intro one_pass_fold) simp_all
    ultimately show ?thesis
      using traversal_walk [OF n, of start]
      by (simp add: spec_pass_def split: prod.splits)
  qed
qed

lemma spec_pass_sound:
  assumes "spec_pass f n start \<lparr>ues = us, ctx = c, calls = []\<rparr> = (r, s')"
  shows "ues s' = us"
    and "map fst (calls s') = expected_attempts us (traversal n start)"
    and "ALLOC_SUCCESS \<in> snd ` set (calls s') \<Longrightarrow> served us (traversal n start) \<noteq> []"
    and "r = (if ALLOC_SUCCESS \<in> snd ` set (calls s')
              then (last (served us (traversal n start)) + 1) mod n else start mod n)"
proof -
  let ?s = "\<lparr>ues = us, ctx = c, calls = []\<rparr>"
  obtain nx' a' s1 new where fo: "foldl (visit f n) (start, False, ?s) (traversal n start) = (nx', a', s1)"
    and u: "ues s1 = ues ?s" and cl: "calls s1 = calls ?s @ new"
    and ex: "map fst new = expected_attempts (ues ?s) (traversal n start)"
    and a: "a' = (False \<or> ALLOC_SUCCESS \<in> snd ` set new)"
    and nx: "nx' = (if a' \<and> served (ues ?s) (traversal n start) \<noteq> []
                    then (last (served (ues ?s) (traversal n start)) + 1) mod n else start)"
    using foldl_visit_sound [of f n start False ?s "traversal n start"] by blast
  from fo assms have r: "r = nx' mod n" and s': "s' = s1"
    by (simp_all add: spec_pass_def)
  show "ues s' = us"
    using u s' by simp
  show calls_eq: "map fst (calls s') = expected_attempts us (traversal n start)"
    using cl ex s' by simp
  show ne: "served us (traversal n start) \<noteq> []" if "ALLOC_SUCCESS \<in> snd ` set (calls s')"
  proof
    assume "served us (traversal n start) = []"
    then have "map fst (calls s') = []"
      using calls_eq by (simp add: expected_attempts_none)
    with that show False
      by simp
  qed
  show "r = (if ALLOC_SUCCESS \<in> snd ` set (calls s')
              then (last (served us (traversal n start)) + 1) mod n else start mod n)"
  proof (cases "ALLOC_SUCCESS \<in> snd ` set (calls s')")
    case True
    with a cl s' have "a'"
      by simp
    with nx ne [OF True] have "nx' = (last (served us (traversal n start)) + 1) mod n"
      by simp
    with r True show ?thesis
      by (simp only: word_mod_mod if_True)
  next
    case False
    with a cl s' have "\<not> a'"
      by simp
    with nx r False show ?thesis
      by simp
  qed
qed

section \<open>The callback is the only thing that acts\<close>

lemma run_calls_snoc:
  "run_calls f us (qs @ [p]) c0 = invoke f us (run_calls f us qs c0) p"
  by (simp add: run_calls_def)

lemma weight_attempts_run:
  "(calls s, ctx s) = run_calls f us qs c0 \<Longrightarrow>
     (calls (snd (weight_attempts f p (us ! unat p) k a s)),
      ctx (snd (weight_attempts f p (us ! unat p) k a s)))
       = run_calls f us (qs @ replicate k p) c0"
proof (induction k arbitrary: a s qs)
  case 0
  then show ?case by simp
next
  case (Suc k)
  obtain res c' where call: "f p (us ! unat p) (ctx s) = (res, c')"
    by (cases "f p (us ! unat p) (ctx s)")
  let ?s1 = "s\<lparr>ctx := c', calls := calls s @ [(p, res)]\<rparr>"
  have "(calls ?s1, ctx ?s1) = run_calls f us (qs @ [p]) c0"
    using Suc.prems [symmetric] call by (simp add: run_calls_snoc invoke_def)
  from Suc.IH [OF this, of "a \<or> res = ALLOC_SUCCESS"] call show ?case
    by (simp add: replicate_app_Cons_same)
qed

lemma foldl_visit_run:
  "(calls s, ctx s) = run_calls f (ues s) qs c0 \<Longrightarrow>
     foldl (visit f n) (nx, a, s) ps = (nx', a', s') \<Longrightarrow>
     (calls s', ctx s') = run_calls f (ues s) (qs @ expected_attempts (ues s) ps) c0"
proof (induction ps arbitrary: nx a s qs)
  case Nil
  then show ?case
    by (simp add: expected_attempts_def served_def)
next
  case (Cons p ps)
  let ?u = "ues s ! unat p"
  show ?case
  proof (cases "eligible ?u")
    case True
    obtain a1 s1 where att: "weight_attempts f p ?u (unat (weight ?u)) a s = (a1, s1)"
      by (cases "weight_attempts f p ?u (unat (weight ?u)) a s")
    have vis: "visit f n (nx, a, s) p = (if a1 then (p + 1) mod n else nx, a1, s1)"
      using True att by (simp add: visit_def)
    have u1: "ues s1 = ues s"
      using attempts_ues [of f p ?u "weight ?u" 0 a s] att by (simp add: attempts_spec)
    have "(calls s1, ctx s1) = run_calls f (ues s) (qs @ replicate (unat (weight ?u)) p) c0"
      using weight_attempts_run [OF Cons.prems(1), of p "unat (weight ?u)" a] att by simp
    moreover have "expected_attempts (ues s) [p] = replicate (unat (weight ?u)) p"
      using True by (simp add: expected_attempts_def served_def)
    ultimately have inv: "(calls s1, ctx s1) = run_calls f (ues s1) (qs @ expected_attempts (ues s) [p]) c0"
      using u1 by simp
    have "foldl (visit f n) (if a1 then (p + 1) mod n else nx, a1, s1) ps = (nx', a', s')"
      using Cons.prems(2) vis by simp
    from Cons.IH [OF inv this] u1 show ?thesis
      by (simp add: expected_attempts_Cons [of _ p ps])
  next
    case False
    then have "visit f n (nx, a, s) p = (nx, a, s)"
      by (simp add: visit_def)
    then have "foldl (visit f n) (nx, a, s) ps = (nx', a', s')"
      using Cons.prems(2) by simp
    moreover have "expected_attempts (ues s) (p # ps) = expected_attempts (ues s) ps"
      using False by (simp add: expected_attempts_def served_def)
    ultimately show ?thesis
      using Cons.IH [OF Cons.prems(1)] by simp
  qed
qed

lemma wrr_schedule_full:
  assumes n: "n \<noteq> 0" and len: "length us = unat n"
  shows "wrr_schedule us n start (Some f) c
     = Some (if ALLOC_SUCCESS \<in> snd ` set (fst (run_calls f us (expected_attempts us (traversal n start)) c))
             then (last (served us (traversal n start)) + 1) mod n else start mod n,
             \<lparr>ues = us,
              ctx = snd (run_calls f us (expected_attempts us (traversal n start)) c),
              calls = fst (run_calls f us (expected_attempts us (traversal n start)) c)\<rparr>)"
proof -
  let ?s = "\<lparr>ues = us, ctx = c, calls = []\<rparr>"
  obtain r s' where sp: "spec_pass f n start ?s = (r, s')"
    by (cases "spec_pass f n start ?s")
  obtain nx' a' where fo: "foldl (visit f n) (start, False, ?s) (traversal n start) = (nx', a', s')"
    using sp by (auto simp add: spec_pass_def split: prod.splits)
  have "(calls ?s, ctx ?s) = run_calls f (ues ?s) [] c"
    by (simp add: run_calls_def)
  from foldl_visit_run [OF this fo]
  have run: "(calls s', ctx s') = run_calls f us (expected_attempts us (traversal n start)) c"
    by simp
  then have c1: "calls s' = fst (run_calls f us (expected_attempts us (traversal n start)) c)"
    and c2: "ctx s' = snd (run_calls f us (expected_attempts us (traversal n start)) c)"
    by (metis fst_conv, metis snd_conv)
  have "s' = \<lparr>ues = ues s', ctx = ctx s', calls = calls s'\<rparr>"
    by simp
  with spec_pass_sound(1) [OF sp] c1 c2
  have s': "s' = \<lparr>ues = us,
      ctx = snd (run_calls f us (expected_attempts us (traversal n start)) c),
      calls = fst (run_calls f us (expected_attempts us (traversal n start)) c)\<rparr>"
    by simp
  have "wrr_schedule us n start (Some f) c = Some (r, s')"
    using wrr_schedule_refines [OF n len, of start f c] sp by simp
  moreover note spec_pass_sound(4) [OF sp]
  ultimately show ?thesis
    using c1 s' by simp
qed

section \<open>Lists of positions\<close>

lemma run_calls_positions: "map fst (fst (run_calls f us ps c)) = ps"
proof (induction ps rule: rev_induct)
  case Nil
  show ?case by (simp add: run_calls_def)
next
  case (snoc p ps)
  obtain log c1 where r: "run_calls f us ps c = (log, c1)"
    by (cases "run_calls f us ps c")
  obtain res c2 where "f p (us ! unat p) c1 = (res, c2)"
    by (cases "f p (us ! unat p) c1")
  with r snoc show ?case
    by (simp add: run_calls_snoc invoke_def)
qed

lemma expected_attempts_in_served: "set (expected_attempts us ps) \<subseteq> set (served us ps)"
  by (auto simp add: expected_attempts_def)


lemma length_expected_attempts:
  "length (expected_attempts us ps) = sum_list (map (\<lambda>p. unat (weight (us ! unat p))) (served us ps))"
  by (simp add: expected_attempts_def length_concat comp_def)

lemma sum_list_filter_rotate:
  "sum_list (map h (filter P (rotate k xs))) = (sum_list (map h (filter P xs)) :: nat)"
proof -
  let ?j = "k mod length xs"
  have "sum_list (map h (filter P (rotate k xs)))
      = sum_list (map h (filter P (take ?j xs))) + sum_list (map h (filter P (drop ?j xs)))"
    by (simp add: rotate_drop_take)
  also have "\<dots> = sum_list (map h (filter P (take ?j xs @ drop ?j xs)))"
    by (simp del: append_take_drop_id)
  also have "take ?j xs @ drop ?j xs = xs"
    by (rule append_take_drop_id)
  finally show ?thesis .
qed

lemma sum_served_traversal:
  assumes "length us = unat n"
  shows "sum_list (map (\<lambda>p. unat (weight (us ! unat p))) (served us (traversal n start)))
     = sum_list (map (\<lambda>u. unat (weight u)) (filter eligible us))"
proof -
  have "map (\<lambda>p. us ! unat p) (served us (traversal n start))
      = filter eligible (map (\<lambda>p. us ! unat p) (traversal n start))"
    by (simp add: served_def filter_map comp_def)
  also have "\<dots> = filter eligible (rotate (unat start) us)"
    by (simp only: traversal_participants [OF assms])
  finally have "map (\<lambda>u. unat (weight u)) (map (\<lambda>p. us ! unat p) (served us (traversal n start)))
      = map (\<lambda>u. unat (weight u)) (filter eligible (rotate (unat start) us))"
    by (rule arg_cong)
  then have "sum_list (map (\<lambda>p. unat (weight (us ! unat p))) (served us (traversal n start)))
      = sum_list (map (\<lambda>u. unat (weight u)) (filter eligible (rotate (unat start) us)))"
    by (simp add: comp_def)
  then show ?thesis
    by (simp only: sum_list_filter_rotate)
qed

lemma count_expected_attempts:
  "distinct ps \<Longrightarrow>
     length (filter (\<lambda>q. q = p) (expected_attempts us ps))
       = (if p \<in> set ps \<and> eligible (us ! unat p) then unat (weight (us ! unat p)) else 0)"
proof (induction ps)
  case Nil
  show ?case by (simp add: expected_attempts_def served_def)
next
  case (Cons q ps)
  have one: "expected_attempts us [q] = (if eligible (us ! unat q) then replicate (unat (weight (us ! unat q))) q else [])"
    by (simp add: expected_attempts_def served_def)
  have rep: "length (filter (\<lambda>x. x = p) (replicate k q)) = (if q = p then k else 0)" for k
    by (induction k) auto
  from Cons have ih: "length (filter (\<lambda>q. q = p) (expected_attempts us ps))
      = (if p \<in> set ps \<and> eligible (us ! unat p) then unat (weight (us ! unat p)) else 0)"
    and fresh: "q \<notin> set ps"
    by simp_all
  have "length (filter (\<lambda>x. x = p) (expected_attempts us (q # ps)))
      = length (filter (\<lambda>x. x = p) (expected_attempts us [q]))
        + length (filter (\<lambda>x. x = p) (expected_attempts us ps))"
    by (simp add: expected_attempts_Cons [of us q ps])
  also have "length (filter (\<lambda>x. x = p) (expected_attempts us [q]))
      = (if q = p \<and> eligible (us ! unat p) then unat (weight (us ! unat p)) else 0)"
  proof (cases "q = p")
    case True
    then show ?thesis
      using rep [of "unat (weight (us ! unat q))"] one by simp
  next
    case False
    then have "filter (\<lambda>x. x = p) (replicate k q) = []" for k
      by (induction k) auto
    with False one show ?thesis
      by simp
  qed
  finally show ?case
    using ih fresh by auto
qed

lemma count_calls:
  "length (filter (\<lambda>x. fst x = p) xs) = length (filter (\<lambda>q. q = p) (map fst xs))"
  by (simp add: filter_map comp_def)

section \<open>Participants that differ in their identifiers only\<close>

lemma same_but_id:
  assumes "map weight us = map weight us'" and "map active us = map active us'"
    and "i < length us"
  shows "weight (us' ! i) = weight (us ! i)" and "active (us' ! i) = active (us ! i)"
    and "eligible (us' ! i) = eligible (us ! i)"
    and "us' ! i = (us ! i)\<lparr>ue_id := ue_id (us' ! i)\<rparr>"
proof -
  have len: "length us' = length us"
    using assms(1) by (metis length_map)
  show w: "weight (us' ! i) = weight (us ! i)"
    using assms(1,3) len by (metis nth_map)
  show a: "active (us' ! i) = active (us ! i)"
    using assms(2,3) len by (metis nth_map)
  show "eligible (us' ! i) = eligible (us ! i)"
    using w a by (simp add: eligible_def)
  show "us' ! i = (us ! i)\<lparr>ue_id := ue_id (us' ! i)\<rparr>"
    using w a by simp
qed

lemma served_same_but_id:
  assumes "map weight us = map weight us'" and "map active us = map active us'"
    and "\<forall>p\<in>set ps. unat p < length us"
  shows "served us' ps = served us ps"
  unfolding served_def
  using assms same_but_id(3) [OF assms(1,2)] by (intro filter_cong) auto

lemma expected_attempts_same_but_id:
  assumes "map weight us = map weight us'" and "map active us = map active us'"
    and "\<forall>p\<in>set ps. unat p < length us"
  shows "expected_attempts us' ps = expected_attempts us ps"
proof -
  have "map (\<lambda>p. replicate (unat (weight (us' ! unat p))) p) (served us ps)
      = map (\<lambda>p. replicate (unat (weight (us ! unat p))) p) (served us ps)"
    using assms(3) same_but_id(1) [OF assms(1,2)] by (intro map_cong) (auto simp add: served_def)
  then show ?thesis
    unfolding expected_attempts_def served_same_but_id [OF assms] by (rule arg_cong)
qed

lemma run_calls_same_but_id:
  assumes "id_blind f" and "map weight us = map weight us'" and "map active us = map active us'"
    and "\<forall>p\<in>set ps. unat p < length us"
  shows "run_calls f us' ps c = run_calls f us ps c"
  using assms(4)
proof (induction ps rule: rev_induct)
  case Nil
  show ?case by (simp add: run_calls_def)
next
  case (snoc p ps)
  then have "unat p < length us" and ih: "run_calls f us' ps c = run_calls f us ps c"
    by simp_all
  from same_but_id(4) [OF assms(2,3) this(1)] assms(1)
  have "f p (us' ! unat p) x = f p (us ! unat p) x" for x
    unfolding id_blind_def by metis
  then have "invoke f us' st p = invoke f us st p" for st
    by (simp add: invoke_def split: prod.splits)
  with ih show ?case
    by (simp add: run_calls_snoc)
qed


lemma traversal_mod: "traversal n (start mod n) = traversal n start"
  by (simp add: traversal_def unat_mod)

lemma wrr_schedule_start_mod:
  assumes "n = 0 \<or> length us = unat n"
  shows "wrr_schedule us n (start mod n) alloc_fn c = wrr_schedule us n start alloc_fn c"
proof (cases "n = 0")
  case True
  then show ?thesis
    by (simp add: wrr_schedule_def Let_def)
next
  case n: False
  with assms have len: "length us = unat n"
    by simp
  show ?thesis
  proof (cases alloc_fn)
    case None
    then show ?thesis
      by (simp add: wrr_schedule_def Let_def)
  next
    case (Some f)
    show ?thesis
      unfolding Some wrr_schedule_full [OF n len] traversal_mod word_mod_mod ..
  qed
qed

section \<open>The claims\<close>



text \<open>
  C2. With \<open>count > 0\<close> and a callback, the callback is invoked as many times as the
  weights of the eligible participants add up to, whatever it returns: a position with
  an eligible participant gets exactly its weight in attempts, any other position none.
  The entries on record are invocations: record and context are what applying the
  callback once per recorded position, in order, gives.
\<close>

theorem attempts_equal_weights:
  assumes "n \<noteq> 0" and "length us = unat n"
  shows "\<exists>r s'. wrr_schedule us n start (Some f) c = Some (r, s')
     \<and> (calls s', ctx s') = run_calls f us (map fst (calls s')) c
     \<and> length (calls s') = sum_list (map (\<lambda>u. unat (weight u)) (filter eligible us))
     \<and> (\<forall>p. p < n \<longrightarrow>
           length (filter (\<lambda>x. fst x = p) (calls s'))
             = (if eligible (us ! unat p) then unat (weight (us ! unat p)) else 0))"
proof -
  let ?exp = "expected_attempts us (traversal n start)"
  let ?log = "fst (run_calls f us ?exp c)"
  have "length ?log = length (map fst ?log)"
    by simp
  also have "\<dots> = length ?exp"
    by (simp only: run_calls_positions)
  also have "\<dots> = sum_list (map (\<lambda>u. unat (weight u)) (filter eligible us))"
    by (simp only: length_expected_attempts sum_served_traversal [OF assms(2)])
  finally have total: "length ?log = sum_list (map (\<lambda>u. unat (weight u)) (filter eligible us))" .
  have each: "length (filter (\<lambda>x. fst x = p) ?log)
      = (if eligible (us ! unat p) then unat (weight (us ! unat p)) else 0)" if "p < n" for p
  proof -
    have "length (filter (\<lambda>x. fst x = p) ?log) = length (filter (\<lambda>q. q = p) ?exp)"
      by (simp only: count_calls run_calls_positions)
    moreover have "p \<in> set (traversal n start)"
      using that by (simp add: traversal_once(3))
    ultimately show ?thesis
      using count_expected_attempts [OF traversal_once(2), of p us n start] by simp
  qed
  from total each show ?thesis
    by (simp add: wrr_schedule_full [OF assms] run_calls_positions)
qed

theorem attempts_equal_weights_witness:
  "(4 :: size_t) \<noteq> 0 \<and> length mixed_ues = unat (4 :: size_t)
   \<and> (\<exists>r s'. wrr_schedule mixed_ues 4 6 (Some refuse_fn) 0 = Some (r, s')
          \<and> (calls s', ctx s') = run_calls refuse_fn mixed_ues (map fst (calls s')) 0
          \<and> ctx s' = 5
          \<and> length (calls s') = 5
          \<and> length (filter (\<lambda>x. fst x = 0) (calls s')) = 3
          \<and> length (filter (\<lambda>x. fst x = 1) (calls s')) = 0
          \<and> length (filter (\<lambda>x. fst x = 2) (calls s')) = 0
          \<and> length (filter (\<lambda>x. fst x = 3) (calls s')) = 2)
   \<and> (\<exists>r s'. wrr_schedule mixed_ues 4 6 (Some demo_alloc_fn) 4 = Some (r, s')
          \<and> ctx s' = 0 \<and> length (calls s') = 5)
   \<and> sum_list (map (\<lambda>u. unat (weight u)) (filter eligible mixed_ues)) = 5"
proof -
  have h1: "(4 :: size_t) \<noteq> 0"
    by simp
  have h2: "length mixed_ues = unat (4 :: size_t)"
    by (simp add: mixed_ues_def)
  have sum: "sum_list (map (\<lambda>u. unat (weight u)) (filter eligible mixed_ues)) = 5"
    by (simp add: mixed_ues_def eligible_def)
  have el: "eligible (mixed_ues ! unat (0 :: size_t))" "\<not> eligible (mixed_ues ! unat (1 :: size_t))"
    "\<not> eligible (mixed_ues ! unat (2 :: size_t))" "eligible (mixed_ues ! unat (3 :: size_t))"
    "unat (weight (mixed_ues ! unat (0 :: size_t))) = 3"
    "unat (weight (mixed_ues ! unat (3 :: size_t))) = 2"
    by (simp_all add: mixed_ues_def eligible_def)
  have ev: "wrr_schedule mixed_ues 4 6 (Some refuse_fn) 0
      = Some (2, \<lparr>ues = mixed_ues, ctx = 5,
                  calls = [(3, ALLOC_FAIL), (3, ALLOC_FAIL), (0, ALLOC_FAIL),
                           (0, ALLOC_FAIL), (0, ALLOC_FAIL)]\<rparr>)"
    by code_simp
  have ev': "wrr_schedule mixed_ues 4 6 (Some demo_alloc_fn) 4
      = Some (1, \<lparr>ues = mixed_ues, ctx = 0,
                  calls = [(3, ALLOC_SUCCESS), (3, ALLOC_SUCCESS), (0, ALLOC_SUCCESS),
                           (0, ALLOC_SUCCESS), (0, ALLOC_FAIL)]\<rparr>)"
    by code_simp
  from attempts_equal_weights [OF h1 h2, of 6 refuse_fn 0]
  obtain r s' where res: "wrr_schedule mixed_ues 4 6 (Some refuse_fn) 0 = Some (r, s')"
    and run: "(calls s', ctx s') = run_calls refuse_fn mixed_ues (map fst (calls s')) 0"
    and total: "length (calls s') = sum_list (map (\<lambda>u. unat (weight u)) (filter eligible mixed_ues))"
    and each: "\<And>p. p < 4 \<Longrightarrow> length (filter (\<lambda>x. fst x = p) (calls s'))
        = (if eligible (mixed_ues ! unat p) then unat (weight (mixed_ues ! unat p)) else 0)"
    by blast
  have cnt: "length (filter (\<lambda>x. fst x = 0) (calls s')) = 3"
    "length (filter (\<lambda>x. fst x = 1) (calls s')) = 0"
    "length (filter (\<lambda>x. fst x = 2) (calls s')) = 0"
    "length (filter (\<lambda>x. fst x = 3) (calls s')) = 2"
    using each [of 0] each [of 1] each [of 2] each [of 3] el by simp_all
  from res ev have "ctx s' = 5"
    by auto
  with res run total sum cnt
  have first: "\<exists>r s'. wrr_schedule mixed_ues 4 6 (Some refuse_fn) 0 = Some (r, s')
      \<and> (calls s', ctx s') = run_calls refuse_fn mixed_ues (map fst (calls s')) 0
      \<and> ctx s' = 5
      \<and> length (calls s') = 5
      \<and> length (filter (\<lambda>x. fst x = 0) (calls s')) = 3
      \<and> length (filter (\<lambda>x. fst x = 1) (calls s')) = 0
      \<and> length (filter (\<lambda>x. fst x = 2) (calls s')) = 0
      \<and> length (filter (\<lambda>x. fst x = 3) (calls s')) = 2"
    by (intro exI [of _ r] exI [of _ s']) simp
  have second: "\<exists>r s'. wrr_schedule mixed_ues 4 6 (Some demo_alloc_fn) 4 = Some (r, s')
      \<and> ctx s' = 0 \<and> length (calls s') = 5"
    using ev' by simp
  from h1 h2 first second sum show ?thesis
    by (intro conjI)
qed

text \<open>
  C3. With \<open>count > 0\<close> and a callback, the call does what one pass of the specification
  over the traversal order does. The traversal order has \<open>count\<close> positions: it starts
  at \<open>start_index mod count\<close>, goes up by one per step whoever is eligible, wraps
  modulo \<open>count\<close>, and so holds every position below \<open>count\<close> exactly once. The attempts
  are made in that order.
\<close>

theorem one_pass_in_traversal_order:
  assumes "n \<noteq> 0" and "length us = unat n"
  shows "wrr_schedule us n start (Some f) c
       = Some (spec_pass f n start \<lparr>ues = us, ctx = c, calls = []\<rparr>)
     \<and> length (traversal n start) = unat n
     \<and> distinct (traversal n start)
     \<and> set (traversal n start) = {p. p < n}
     \<and> traversal n start = rotate (unat start) (map word_of_nat [0..<unat n])
     \<and> map fst (calls (snd (spec_pass f n start \<lparr>ues = us, ctx = c, calls = []\<rparr>)))
         = expected_attempts us (traversal n start)"
proof -
  obtain r s' where sp: "spec_pass f n start \<lparr>ues = us, ctx = c, calls = []\<rparr> = (r, s')"
    by (cases "spec_pass f n start \<lparr>ues = us, ctx = c, calls = []\<rparr>")
  from spec_pass_sound(2) [OF sp] sp
  have "map fst (calls (snd (spec_pass f n start \<lparr>ues = us, ctx = c, calls = []\<rparr>)))
      = expected_attempts us (traversal n start)"
    by simp
  moreover note wrr_schedule_refines [OF assms, of start f c]
    traversal_once [of n start] traversal_rotate [of n start]
  ultimately show ?thesis
    by (intro conjI)
qed

theorem one_pass_in_traversal_order_witness:
  "(4 :: size_t) \<noteq> 0 \<and> length mixed_ues = unat (4 :: size_t)
   \<and> wrr_schedule mixed_ues 4 6 (Some demo_alloc_fn) 4
       = Some (spec_pass demo_alloc_fn 4 6 \<lparr>ues = mixed_ues, ctx = 4, calls = []\<rparr>)
   \<and> traversal 4 6 = [2, 3, 0, 1]
   \<and> length (traversal 4 6) = unat (4 :: size_t)
   \<and> distinct (traversal 4 6)
   \<and> set (traversal 4 6) = {p. p < 4}
   \<and> map fst (calls (snd (spec_pass demo_alloc_fn 4 6 \<lparr>ues = mixed_ues, ctx = 4, calls = []\<rparr>)))
       = [3, 3, 0, 0, 0]"
proof -
  have h1: "(4 :: size_t) \<noteq> 0"
    by simp
  have h2: "length mixed_ues = unat (4 :: size_t)"
    by (simp add: mixed_ues_def)
  have tr: "traversal 4 6 = [2, 3, 0, 1]"
    by code_simp
  have ex: "expected_attempts mixed_ues (traversal 4 6) = [3, 3, 0, 0, 0]"
    by code_simp
  note pass = one_pass_in_traversal_order [OF h1 h2, of 6 demo_alloc_fn 4]
  from pass have c1: "wrr_schedule mixed_ues 4 6 (Some demo_alloc_fn) 4
      = Some (spec_pass demo_alloc_fn 4 6 \<lparr>ues = mixed_ues, ctx = 4, calls = []\<rparr>)"
    by (rule conjunct1)
  from pass have c2: "length (traversal 4 6) = unat (4 :: size_t)"
    and c3: "distinct (traversal 4 6)"
    and c4: "set (traversal 4 6) = {p. p < 4}"
    and c5: "map fst (calls (snd (spec_pass demo_alloc_fn 4 6 \<lparr>ues = mixed_ues, ctx = 4, calls = []\<rparr>)))
      = expected_attempts mixed_ues (traversal 4 6)"
    by blast+
  from c5 ex
  have c6: "map fst (calls (snd (spec_pass demo_alloc_fn 4 6 \<lparr>ues = mixed_ues, ctx = 4, calls = []\<rparr>)))
      = [3, 3, 0, 0, 0]"
    by (rule trans)
  from h1 h2 c1 tr c2 c3 c4 c6 show ?thesis
    by (intro conjI)
qed

text \<open>
  C4. With \<open>count > 0\<close> and a callback, every eligible participant still gets all its
  attempts when they all fail: the callback is applied once for each expected attempt,
  in order. The call then returns \<open>start_index mod count\<close>.
\<close>

theorem all_fail_keeps_cursor:
  assumes "n \<noteq> 0" and "length us = unat n"
  shows "\<exists>r s'. wrr_schedule us n start (Some f) c = Some (r, s')
     \<and> map fst (calls s') = expected_attempts us (traversal n start)
     \<and> (calls s', ctx s') = run_calls f us (expected_attempts us (traversal n start)) c
     \<and> (ALLOC_SUCCESS \<notin> snd ` set (calls s') \<longrightarrow> r = start mod n)"
  by (simp add: wrr_schedule_full [OF assms] run_calls_positions)

theorem all_fail_keeps_cursor_witness:
  "(4 :: size_t) \<noteq> 0 \<and> length mixed_ues = unat (4 :: size_t)
   \<and> filter eligible mixed_ues \<noteq> []
   \<and> (\<exists>s'. wrr_schedule mixed_ues 4 6 (Some refuse_fn) 0 = Some (6 mod 4, s')
          \<and> map fst (calls s') = [3, 3, 0, 0, 0]
          \<and> (calls s', ctx s') = run_calls refuse_fn mixed_ues [3, 3, 0, 0, 0] 0
          \<and> ctx s' = 5
          \<and> ALLOC_SUCCESS \<notin> snd ` set (calls s'))
   \<and> (6 :: size_t) mod 4 = 2
   \<and> map_option fst (wrr_schedule mixed_ues 4 6 (Some demo_alloc_fn) 2) = Some 1"
proof -
  have h1: "(4 :: size_t) \<noteq> 0"
    by simp
  have h2: "length mixed_ues = unat (4 :: size_t)"
    by (simp add: mixed_ues_def)
  have h3: "filter eligible mixed_ues \<noteq> []"
    by (simp add: mixed_ues_def eligible_def)
  have ex: "expected_attempts mixed_ues (traversal 4 6) = [3, 3, 0, 0, 0]"
    by code_simp
  have ev: "wrr_schedule mixed_ues 4 6 (Some refuse_fn) 0
      = Some (2, \<lparr>ues = mixed_ues, ctx = 5,
                  calls = [(3, ALLOC_FAIL), (3, ALLOC_FAIL), (0, ALLOC_FAIL),
                           (0, ALLOC_FAIL), (0, ALLOC_FAIL)]\<rparr>)"
    by code_simp
  have moved: "map_option fst (wrr_schedule mixed_ues 4 6 (Some demo_alloc_fn) 2) = Some 1"
    by code_simp
  have m: "(6 :: size_t) mod 4 = 2"
    by simp
  from all_fail_keeps_cursor [OF h1 h2, of 6 refuse_fn 0]
  obtain r s' where res: "wrr_schedule mixed_ues 4 6 (Some refuse_fn) 0 = Some (r, s')"
    and pos: "map fst (calls s') = expected_attempts mixed_ues (traversal 4 6)"
    and run: "(calls s', ctx s') = run_calls refuse_fn mixed_ues (expected_attempts mixed_ues (traversal 4 6)) 0"
    and keep: "ALLOC_SUCCESS \<notin> snd ` set (calls s') \<longrightarrow> r = 6 mod 4"
    by blast
  from res ev have s': "s' = \<lparr>ues = mixed_ues, ctx = 5,
      calls = [(3, ALLOC_FAIL), (3, ALLOC_FAIL), (0, ALLOC_FAIL), (0, ALLOC_FAIL), (0, ALLOC_FAIL)]\<rparr>"
    by simp
  then have nos: "ALLOC_SUCCESS \<notin> snd ` set (calls s')" and c5: "ctx s' = 5"
    by simp_all
  with keep have "r = 6 mod 4"
    by simp
  with res pos run nos c5
  have "\<exists>s'. wrr_schedule mixed_ues 4 6 (Some refuse_fn) 0 = Some (6 mod 4, s')
      \<and> map fst (calls s') = [3, 3, 0, 0, 0]
      \<and> (calls s', ctx s') = run_calls refuse_fn mixed_ues [3, 3, 0, 0, 0] 0
      \<and> ctx s' = 5
      \<and> ALLOC_SUCCESS \<notin> snd ` set (calls s')"
    unfolding ex by (intro exI [of _ s']) simp
  with h1 h2 h3 m moved show ?thesis
    by (intro conjI)
qed

text \<open>
  C5. With \<open>count > 0\<close>, a callback and no eligible participant, the call returns
  \<open>start_index mod count\<close> and the callback is never invoked.
\<close>

theorem no_eligible_keeps_cursor:
  assumes "n \<noteq> 0" and "length us = unat n" and "\<forall>u\<in>set us. \<not> eligible u"
  shows "wrr_schedule us n start (Some f) c
     = Some (start mod n, \<lparr>ues = us, ctx = c, calls = []\<rparr>)"
  using assms count_active_zero(1) [OF assms(2), of c] count_active_zero(2) [OF assms(2)]
  by (simp add: wrr_schedule_def Let_def)

theorem no_eligible_keeps_cursor_witness:
  "(2 :: size_t) \<noteq> 0 \<and> length idle_ues = unat (2 :: size_t)
   \<and> filter eligible idle_ues = []
   \<and> wrr_schedule idle_ues 2 5 (Some demo_alloc_fn) 6
     = Some (1, \<lparr>ues = idle_ues, ctx = 6, calls = []\<rparr>)"
proof -
  have h1: "(2 :: size_t) \<noteq> 0"
    by simp
  have h2: "length idle_ues = unat (2 :: size_t)"
    by (simp add: idle_ues_def)
  have h3: "\<forall>u\<in>set idle_ues. \<not> eligible u"
    by (simp add: idle_ues_def eligible_def)
  have "(5 :: size_t) mod 2 = 1"
    by simp
  with no_eligible_keeps_cursor [OF h1 h2 h3, of 5 demo_alloc_fn 6] h1 h2 h3
  show ?thesis
    by (simp add: filter_empty_conv)
qed

text \<open>
  C6. With \<open>count = 0\<close>, and likewise with no callback, the call returns 0 at once: the
  callback is never invoked and the memory is as it was, whatever the other arguments.
\<close>

theorem wrr_schedule_degenerate:
  "wrr_schedule us 0 start alloc_fn c = Some (0, \<lparr>ues = us, ctx = c, calls = []\<rparr>)
   \<and> wrr_schedule us n start None c = Some (0, \<lparr>ues = us, ctx = c, calls = []\<rparr>)"
  by (simp add: wrr_schedule_def Let_def)

theorem wrr_schedule_degenerate_witness:
  "wrr_schedule demo_ues 0 7 (Some demo_alloc_fn) 6
     = Some (0, \<lparr>ues = demo_ues, ctx = 6, calls = []\<rparr>)
   \<and> wrr_schedule demo_ues 3 7 None (6 :: int)
     = Some (0, \<lparr>ues = demo_ues, ctx = 6, calls = []\<rparr>)"
  using wrr_schedule_degenerate [of demo_ues 7 "Some demo_alloc_fn" 6 3]
  by simp

text \<open>
  C7. The call always returns an index: below \<open>count\<close> when \<open>count > 0\<close>, and 0 when
  \<open>count = 0\<close>. Every \<open>start_index\<close> is accepted, whatever its size, and counts only
  through \<open>start_index mod count\<close>: the call does what it does from the reduced index,
  namely the pass of the specification that starts there.
\<close>

theorem wrr_schedule_index_valid:
  assumes "n = 0 \<or> length us = unat n"
  shows "(\<exists>r s'. wrr_schedule us n start alloc_fn c = Some (r, s')
       \<and> (if n = 0 then r = 0 else r < n))
     \<and> wrr_schedule us n (start mod n) alloc_fn c = wrr_schedule us n start alloc_fn c
     \<and> (\<forall>f. n \<noteq> 0 \<and> alloc_fn = Some f \<longrightarrow>
           wrr_schedule us n start alloc_fn c
             = Some (spec_pass f n (start mod n) \<lparr>ues = us, ctx = c, calls = []\<rparr>)
           \<and> hd (traversal n (start mod n)) = start mod n)"
proof (intro conjI allI impI)
  show "\<exists>r s'. wrr_schedule us n start alloc_fn c = Some (r, s')
       \<and> (if n = 0 then r = 0 else r < n)"
  proof (cases "n = 0")
    case True
    then show ?thesis
      by (simp add: wrr_schedule_def Let_def)
  next
    case n: False
    then have pos: "0 < n"
      by (simp add: word_greater_zero_iff)
    from n assms have len: "length us = unat n"
      by simp
    show ?thesis
    proof (cases alloc_fn)
      case None
      with n pos show ?thesis
        by (simp add: wrr_schedule_def Let_def)
    next
      case (Some f)
      obtain pending a s' where
        "foldl (visit f n) (start, False, \<lparr>ues = us, ctx = c, calls = []\<rparr>) (traversal n start)
           = (pending, a, s')"
        by (metis prod_cases3)
      then have "wrr_schedule us n start (Some f) c = Some (pending mod n, s')"
        using wrr_schedule_refines [OF n len, of start f c] by (simp add: spec_pass_def)
      moreover have "pending mod n < n"
        using pos by (rule word_mod_less_divisor)
      ultimately show ?thesis
        using n Some by simp
    qed
  qed
next
  show "wrr_schedule us n (start mod n) alloc_fn c = wrr_schedule us n start alloc_fn c"
    by (rule wrr_schedule_start_mod [OF assms])
next
  fix f
  assume a: "n \<noteq> 0 \<and> alloc_fn = Some f"
  then have n: "n \<noteq> 0" and f: "alloc_fn = Some f"
    by simp_all
  from n assms have len: "length us = unat n"
    by simp
  have "wrr_schedule us n start alloc_fn c = wrr_schedule us n (start mod n) (Some f) c"
    unfolding f by (rule wrr_schedule_start_mod [OF assms, symmetric])
  also have "\<dots> = Some (spec_pass f n (start mod n) \<lparr>ues = us, ctx = c, calls = []\<rparr>)"
    by (rule wrr_schedule_refines [OF n len])
  finally show "wrr_schedule us n start alloc_fn c
      = Some (spec_pass f n (start mod n) \<lparr>ues = us, ctx = c, calls = []\<rparr>)" .
  from n have "0 < unat n"
    by (simp add: unat_gt_0)
  then have "hd (traversal n (start mod n)) = word_of_nat (unat (start mod n))"
    by (simp add: traversal_def hd_map unat_mod)
  then show "hd (traversal n (start mod n)) = start mod n"
    by simp
qed

theorem wrr_schedule_index_valid_witness:
  "length mixed_ues = unat (4 :: size_t)
   \<and> (18446744073709551615 :: size_t) mod 4 = 3
   \<and> wrr_schedule mixed_ues 4 18446744073709551615 (Some refuse_fn) 0
       = Some (3, \<lparr>ues = mixed_ues, ctx = 5,
                   calls = [(3, ALLOC_FAIL), (3, ALLOC_FAIL), (0, ALLOC_FAIL),
                            (0, ALLOC_FAIL), (0, ALLOC_FAIL)]\<rparr>)
   \<and> (3 :: size_t) < 4
   \<and> wrr_schedule mixed_ues 4 3 (Some refuse_fn) 0
       = wrr_schedule mixed_ues 4 18446744073709551615 (Some refuse_fn) 0
   \<and> wrr_schedule mixed_ues 4 18446744073709551615 (Some refuse_fn) 0
       = Some (spec_pass refuse_fn 4 3 \<lparr>ues = mixed_ues, ctx = 0, calls = []\<rparr>)
   \<and> hd (traversal 4 3) = 3
   \<and> map_option fst (wrr_schedule mixed_ues 4 18446744073709551614 (Some refuse_fn) 0) = Some 2
   \<and> (\<exists>r s'. wrr_schedule mixed_ues 0 18446744073709551615 (Some refuse_fn) 0 = Some (r, s')
         \<and> r = 0)"
proof -
  have h: "length mixed_ues = unat (4 :: size_t)"
    by (simp add: mixed_ues_def)
  then have h': "(4 :: size_t) = 0 \<or> length mixed_ues = unat (4 :: size_t)"
    by (rule disjI2)
  have z: "(0 :: size_t) = 0 \<or> length mixed_ues = unat (0 :: size_t)"
    by simp
  have m: "(18446744073709551615 :: size_t) mod 4 = 3"
    by simp
  have ev: "wrr_schedule mixed_ues 4 18446744073709551615 (Some refuse_fn) 0
      = Some (3, \<lparr>ues = mixed_ues, ctx = 5,
                  calls = [(3, ALLOC_FAIL), (3, ALLOC_FAIL), (0, ALLOC_FAIL),
                           (0, ALLOC_FAIL), (0, ALLOC_FAIL)]\<rparr>)"
    by code_simp
  have other: "map_option fst (wrr_schedule mixed_ues 4 18446744073709551614 (Some refuse_fn) 0) = Some 2"
    by code_simp
  note big = wrr_schedule_index_valid [OF h', of 18446744073709551615 "Some refuse_fn" 0]
  from big have red': "wrr_schedule mixed_ues 4 3 (Some refuse_fn) 0
      = wrr_schedule mixed_ues 4 18446744073709551615 (Some refuse_fn) 0"
    by simp
  from big have sp: "wrr_schedule mixed_ues 4 18446744073709551615 (Some refuse_fn) 0
        = Some (spec_pass refuse_fn 4 3 \<lparr>ues = mixed_ues, ctx = 0, calls = []\<rparr>)"
    and hd: "hd (traversal 4 3) = (3 :: size_t)"
    by simp_all
  have lt: "(3 :: size_t) < 4"
    by simp
  from wrr_schedule_index_valid [OF z, of 18446744073709551615 "Some refuse_fn" 0]
  have zero: "\<exists>r s'. wrr_schedule mixed_ues 0 18446744073709551615 (Some refuse_fn) 0 = Some (r, s')
      \<and> r = 0"
    by simp
  from h m ev lt red' sp hd other zero show ?thesis
    by (intro conjI)
qed

text \<open>
  C8. The call leaves every participant record as it was. What it does besides
  returning is to invoke the callback: the invocations on record and the context left
  behind are those of invoking the callback at the recorded positions, in order.
\<close>

theorem participants_unchanged:
  assumes "n = 0 \<or> length us = unat n"
  shows "\<exists>r s'. wrr_schedule us n start alloc_fn c = Some (r, s')
     \<and> ues s' = us
     \<and> (calls s', ctx s')
         = (case alloc_fn of None \<Rightarrow> ([], c) | Some f \<Rightarrow> run_calls f us (map fst (calls s')) c)"
proof (cases "n = 0 \<or> alloc_fn = None")
  case True
  then show ?thesis
    by (auto simp add: wrr_schedule_def Let_def run_calls_def split: option.splits)
next
  case False
  then obtain f where f: "alloc_fn = Some f" and n: "n \<noteq> 0"
    by auto
  from n assms have len: "length us = unat n"
    by simp
  show ?thesis
    unfolding f by (simp add: wrr_schedule_full [OF n len] run_calls_positions)
qed

theorem participants_unchanged_witness:
  "length mixed_ues = unat (4 :: size_t)
   \<and> (\<exists>r s'. wrr_schedule mixed_ues 4 6 (Some demo_alloc_fn) 4 = Some (r, s')
          \<and> ues s' = mixed_ues
          \<and> (calls s', ctx s') = run_calls demo_alloc_fn mixed_ues [3, 3, 0, 0, 0] 4)"
proof -
  have h: "length mixed_ues = unat (4 :: size_t)"
    by (simp add: mixed_ues_def)
  have ev: "wrr_schedule mixed_ues 4 6 (Some demo_alloc_fn) 4
      = Some (1, \<lparr>ues = mixed_ues, ctx = 0,
                  calls = [(3, ALLOC_SUCCESS), (3, ALLOC_SUCCESS), (0, ALLOC_SUCCESS),
                           (0, ALLOC_SUCCESS), (0, ALLOC_FAIL)]\<rparr>)"
    by code_simp
  from h have h': "(4 :: size_t) = 0 \<or> length mixed_ues = unat (4 :: size_t)"
    by (rule disjI2)
  from participants_unchanged [OF h', of 6 "Some demo_alloc_fn" 4] ev h
  show ?thesis
    by simp
qed

text \<open>
  C9. With \<open>count > 0\<close> and no eligible participant, a second call that starts from
  the cursor the first call returned returns that cursor again.
\<close>

theorem idle_cursor_idempotent:
  assumes "n \<noteq> 0" and "length us = unat n" and "\<forall>u\<in>set us. \<not> eligible u"
  shows "\<exists>r. wrr_schedule us n start alloc_fn c = Some (r, \<lparr>ues = us, ctx = c, calls = []\<rparr>)
     \<and> wrr_schedule us n r alloc_fn c = Some (r, \<lparr>ues = us, ctx = c, calls = []\<rparr>)"
proof (cases alloc_fn)
  case None
  then show ?thesis
    by (simp add: wrr_schedule_def Let_def)
next
  case (Some f)
  note cnt = count_active_zero(1) [OF assms(2), of c] count_active_zero(2) [OF assms(2)]
  have "wrr_schedule us n x (Some f) c = Some (x mod n, \<lparr>ues = us, ctx = c, calls = []\<rparr>)" for x
    using assms cnt by (simp add: wrr_schedule_def Let_def)
  then show ?thesis
    using Some by (simp add: word_mod_mod)
qed

theorem idle_cursor_idempotent_witness:
  "(2 :: size_t) \<noteq> 0 \<and> length idle_ues = unat (2 :: size_t)
   \<and> filter eligible idle_ues = []
   \<and> (\<exists>r. wrr_schedule idle_ues 2 5 (Some demo_alloc_fn) 6
          = Some (r, \<lparr>ues = idle_ues, ctx = 6, calls = []\<rparr>)
        \<and> wrr_schedule idle_ues 2 r (Some demo_alloc_fn) 6
          = Some (r, \<lparr>ues = idle_ues, ctx = 6, calls = []\<rparr>))"
proof -
  have h1: "(2 :: size_t) \<noteq> 0"
    by simp
  have h2: "length idle_ues = unat (2 :: size_t)"
    by (simp add: idle_ues_def)
  have h3: "\<forall>u\<in>set idle_ues. \<not> eligible u"
    by (simp add: idle_ues_def eligible_def)
  from idle_cursor_idempotent [OF h1 h2 h3, of 5 "Some demo_alloc_fn" 6] h1 h2 h3
  show ?thesis
    by (simp add: filter_empty_conv)
qed

text \<open>
  C10. Two participant lists of the same length that agree on weight and active at
  every position, and a callback that does not look at identifiers: the call returns the
  same index on both, makes the same attempts in the same order with the same outcomes,
  and leaves the same context.
\<close>

theorem ids_do_not_matter:
  assumes "length us = unat n"
    and "map weight us = map weight us'" and "map active us = map active us'"
    and "id_blind f"
  shows "\<exists>r s'. wrr_schedule us n start (Some f) c = Some (r, s')
     \<and> wrr_schedule us' n start (Some f) c = Some (r, s'\<lparr>ues := us'\<rparr>)"
proof (cases "n = 0")
  case True
  then show ?thesis
    by (simp add: wrr_schedule_def Let_def)
next
  case n: False
  have len': "length us' = unat n"
    using assms(1,2) by (metis length_map)
  have inside: "\<forall>p\<in>set (traversal n start). unat p < length us"
    using assms(1) by (simp add: traversal_once(3) word_less_nat_alt)
  then have inside': "\<forall>p\<in>set (expected_attempts us (traversal n start)). unat p < length us"
    using expected_attempts_in_served [of us "traversal n start"] by (auto simp add: served_def)
  have "served us' (traversal n start) = served us (traversal n start)"
    by (rule served_same_but_id [OF assms(2,3) inside])
  moreover have ex: "expected_attempts us' (traversal n start) = expected_attempts us (traversal n start)"
    by (rule expected_attempts_same_but_id [OF assms(2,3) inside])
  moreover have "run_calls f us' (expected_attempts us (traversal n start)) c
      = run_calls f us (expected_attempts us (traversal n start)) c"
    by (rule run_calls_same_but_id [OF assms(4,2,3) inside'])
  ultimately show ?thesis
    by (simp add: wrr_schedule_full [OF n assms(1)] wrr_schedule_full [OF n len'])
qed

theorem ids_do_not_matter_witness:
  "length demo_ues = unat (3 :: size_t)
   \<and> map weight demo_ues = map weight spec_ues \<and> map active demo_ues = map active spec_ues
   \<and> id_blind demo_alloc_fn
   \<and> map ue_id demo_ues \<noteq> map ue_id spec_ues
   \<and> (\<exists>r s'. wrr_schedule demo_ues 3 5 (Some demo_alloc_fn) 2 = Some (r, s')
          \<and> wrr_schedule spec_ues 3 5 (Some demo_alloc_fn) 2 = Some (r, s'\<lparr>ues := spec_ues\<rparr>))"
proof -
  have h1: "length demo_ues = unat (3 :: size_t)"
    by (simp add: demo_ues_def)
  have h2: "map weight demo_ues = map weight spec_ues"
    and h3: "map active demo_ues = map active spec_ues"
    and dif: "map ue_id demo_ues \<noteq> map ue_id spec_ues"
    by (simp_all add: demo_ues_def spec_ues_def)
  have h4: "id_blind demo_alloc_fn"
    by (simp add: id_blind_def demo_alloc_fn_def)
  from ids_do_not_matter [OF h1 h2 h3 h4, of 5 2] h1 h2 h3 h4 dif
  show ?thesis
    by simp
qed

end
